theory Spec2Isabelle
  imports Main "HOL-Library.Word"
begin

section \<open>Data model of merkle.go\<close>

text \<open>
  Byte slices are modelled as values (lists of bytes); the sharing of backing arrays between
  slices is not part of the model. A pointer to a Node is an address into a store of nodes
  (the list of all Node objects allocated so far, a new object taking the next index);
  a nil pointer field is \<open>None\<close>. Dereferencing nil panics; in the model a dereference of an
  address that is not allocated panics too.

  The interface Content is a type \<open>'c\<close> with its two methods passed as functions:
  \<open>CalculateHash :: 'c \<Rightarrow> 'e + bytes\<close> and \<open>Equals :: 'c \<Rightarrow> 'c \<Rightarrow> 'e + bool\<close>,
  where \<open>'e\<close> is the type of Go error values and \<open>Inl\<close> is a non-nil error.
  The field Node.Tree (a back pointer to the tree, read only to reach the hash strategy)
  is left out: the hash strategy is passed to the builder directly.
\<close>

type_synonym bytes = "8 word list"
type_synonym addr = nat

datatype 'e failure = NoContent | Raised 'e | Panic

record 'c Node =
  Parent :: "addr option"
  Left :: "addr option"
  Right :: "addr option"
  leaf :: bool
  dup :: bool
  Hash :: bytes
  C :: "'c option"

type_synonym 'c store = "'c Node list"

text \<open>
  A hash strategy stands for \<open>h := hashStrategy(); h.Write(b); h.Sum(nil)\<close>: the digest of
  the bytes written to a fresh hasher, or the error of the write.
\<close>

type_synonym 'e strategy = "bytes \<Rightarrow> 'e + bytes"

record 'e MerkleTree =
  Root :: "addr option"
  merkleRoot :: bytes
  Leafs :: "addr list"
  hashStrategy :: "'e strategy"

definition deref :: "'c store \<Rightarrow> addr \<Rightarrow> 'c Node option" where
  "deref s a = (if a < length s then Some (s ! a) else None)"

section \<open>Construction\<close>

text \<open>
  The for loop of buildIntermediate, from index \<open>i\<close> with the nodes collected so far.
  It leaves either by the return inside the loop (\<open>len(nl) == 2\<close>) or by falling through
  with the next level. The index is a natural number: \<open>i + 1\<close> and \<open>i + 2\<close> do not
  overflow an int for a slice that fits in memory.
\<close>

datatype loop_exit = Return addr | Fallthrough "addr list"

function pairLoop ::
  "'e strategy \<Rightarrow> addr list \<Rightarrow> nat \<Rightarrow> addr list \<Rightarrow> 'c store
    \<Rightarrow> 'e failure + (loop_exit \<times> 'c store)" where
  "pairLoop hs nl i nodes s =
    (if i < length nl then
       (let left = i; right = (if i + 1 = length nl then i else i + 1) in
        case deref s (nl ! left) of None \<Rightarrow> Inl Panic | Some ln \<Rightarrow>
        (case deref s (nl ! right) of None \<Rightarrow> Inl Panic | Some rn \<Rightarrow>
        (case hs (Hash ln @ Hash rn) of Inl e \<Rightarrow> Inl (Raised e) | Inr d \<Rightarrow>
          (let n = length s;
               s1 = s @ [\<lparr>Parent = None, Left = Some (nl ! left), Right = Some (nl ! right),
                          leaf = False, dup = False, Hash = d, C = None\<rparr>];
               nodes' = nodes @ [n];
               s2 = s1[nl ! left := (s1 ! (nl ! left))\<lparr>Parent := Some n\<rparr>];
               s3 = s2[nl ! right := (s2 ! (nl ! right))\<lparr>Parent := Some n\<rparr>]
           in if length nl = 2 then Inr (Return n, s3)
              else pairLoop hs nl (i + 2) nodes' s3))))
     else Inr (Fallthrough nodes, s))"
  by pat_completeness auto
termination
  by (relation "measure (\<lambda>(hs, nl, i, nodes, s). length nl - i)") auto

text \<open>
  buildIntermediate calls itself on the next level with no bound of its own (on a level of
  one node, or of none, the recursion never ends): \<open>None\<close> is "does not return".
\<close>

partial_function (option) buildIntermediate ::
  "'e strategy \<Rightarrow> addr list \<Rightarrow> 'c store \<Rightarrow> ('e failure + (addr \<times> 'c store)) option" where
  "buildIntermediate hs nl s =
    (case pairLoop hs nl 0 [] s of
       Inl e \<Rightarrow> Some (Inl e)
     | Inr (ex, s') \<Rightarrow>
        (case ex of
           Return n \<Rightarrow> Some (Inr (n, s'))
         | Fallthrough nodes \<Rightarrow> buildIntermediate hs nodes s'))"

text \<open>The first loop of buildWithContent: one leaf node for each content, in order.\<close>

fun hashLeafs ::
  "('c \<Rightarrow> 'e + bytes) \<Rightarrow> 'c list \<Rightarrow> addr list \<Rightarrow> 'c store
    \<Rightarrow> 'e failure + (addr list \<times> 'c store)" where
  "hashLeafs CalculateHash [] leafs s = Inr (leafs, s)"
| "hashLeafs CalculateHash (c # cs) leafs s =
    (case CalculateHash c of
       Inl e \<Rightarrow> Inl (Raised e)
     | Inr h \<Rightarrow>
         hashLeafs CalculateHash cs (leafs @ [length s])
           (s @ [\<lparr>Parent = None, Left = None, Right = None, leaf = True, dup = False,
                  Hash = h, C = Some c\<rparr>]))"

definition buildWithContent ::
  "'e strategy \<Rightarrow> ('c \<Rightarrow> 'e + bytes) \<Rightarrow> 'c list \<Rightarrow> 'c store
    \<Rightarrow> ('e failure + (addr \<times> addr list \<times> 'c store)) option" where
  "buildWithContent hs CalculateHash cs s =
    (if length cs = 0 then Some (Inl NoContent)
     else
       case hashLeafs CalculateHash cs [] s of
         Inl e \<Rightarrow> Some (Inl e)
       | Inr (leafs, s1) \<Rightarrow>
          (case (if length leafs mod 2 = 1 then
                   (case deref s1 (leafs ! (length leafs - 1)) of
                      None \<Rightarrow> Inl Panic
                    | Some lst \<Rightarrow>
                        Inr (leafs @ [length s1],
                             s1 @ [\<lparr>Parent = None, Left = None, Right = None, leaf = True,
                                     dup = True, Hash = Hash lst, C = C lst\<rparr>]))
                 else Inr (leafs, s1)) of
             Inl e \<Rightarrow> Some (Inl e)
           | Inr (leafs', s2) \<Rightarrow>
              (case buildIntermediate hs leafs' s2 of
                 None \<Rightarrow> None
               | Some (Inl e) \<Rightarrow> Some (Inl e)
               | Some (Inr (root, s3)) \<Rightarrow> Some (Inr (root, leafs', s3)))))"

text \<open>
  NewTree. The default strategy is md5.New of the Go standard library, taken as the
  parameter \<open>md5\<close>: the digest of the bytes written (its Write returns no error).
\<close>

definition NewTree ::
  "(bytes \<Rightarrow> bytes) \<Rightarrow> ('c \<Rightarrow> 'e + bytes) \<Rightarrow> 'c list \<Rightarrow> 'c store
    \<Rightarrow> ('e failure + ('e MerkleTree \<times> 'c store)) option" where
  "NewTree md5 CalculateHash cs s =
    (let defaultHashStrategy = (\<lambda>b. Inr (md5 b)) in
     case buildWithContent defaultHashStrategy CalculateHash cs s of
       None \<Rightarrow> None
     | Some (Inl e) \<Rightarrow> Some (Inl e)
     | Some (Inr (root, leafs, s')) \<Rightarrow>
        (case deref s' root of
           None \<Rightarrow> Some (Inl Panic)
         | Some rn \<Rightarrow>
             Some (Inr (\<lparr>Root = Some root, merkleRoot = Hash rn, Leafs = leafs,
                         hashStrategy = defaultHashStrategy\<rparr>, s'))))"


section \<open>Proof extraction\<close>

text \<open>
  The inner loop of GetMerklePath, \<open>for currentParent != nil\<close>. It follows Parent pointers
  with no bound of its own, so \<open>None\<close> is "does not return".
\<close>

partial_function (option) walk ::
  "'c store \<Rightarrow> addr \<Rightarrow> addr option \<Rightarrow> bytes list \<Rightarrow> 64 word list
    \<Rightarrow> ('e failure + (bytes list \<times> 64 word list)) option" where
  "walk s current currentParent merklePath index =
    (case currentParent of
       None \<Rightarrow> Some (Inr (merklePath, index))
     | Some p \<Rightarrow>
        (case deref s p of None \<Rightarrow> Some (Inl Panic) | Some pn \<Rightarrow>
        (case Option.bind (Left pn) (deref s) of None \<Rightarrow> Some (Inl Panic) | Some ln \<Rightarrow>
        (case deref s current of None \<Rightarrow> Some (Inl Panic) | Some cn \<Rightarrow>
          if Hash ln = Hash cn then
            (case Option.bind (Right pn) (deref s) of
               None \<Rightarrow> Some (Inl Panic)
             | Some rn \<Rightarrow> walk s p (Parent pn) (merklePath @ [Hash rn]) (index @ [1]))
          else walk s p (Parent pn) (merklePath @ [Hash ln]) (index @ [0])))))"

text \<open>The outer loop of GetMerklePath over the leaves, in order.\<close>

fun scanLeafs ::
  "('c \<Rightarrow> 'c \<Rightarrow> 'e + bool) \<Rightarrow> 'c store \<Rightarrow> addr list \<Rightarrow> 'c
    \<Rightarrow> ('e failure + (bytes list \<times> 64 word list)) option" where
  "scanLeafs Equals s [] content = Some (Inr ([], []))"
| "scanLeafs Equals s (current # rest) content =
    (case deref s current of None \<Rightarrow> Some (Inl Panic) | Some cn \<Rightarrow>
    (case C cn of None \<Rightarrow> Some (Inl Panic) | Some c \<Rightarrow>
    (case Equals c content of
       Inl e \<Rightarrow> Some (Inl (Raised e))
     | Inr ok \<Rightarrow>
         if ok then walk s current (Parent cn) [] []
         else scanLeafs Equals s rest content)))"

definition GetMerklePath ::
  "('c \<Rightarrow> 'c \<Rightarrow> 'e + bool) \<Rightarrow> 'e MerkleTree \<Rightarrow> 'c store \<Rightarrow> 'c
    \<Rightarrow> ('e failure + (bytes list \<times> 64 word list)) option" where
  "GetMerklePath Equals m s content = scanLeafs Equals s (Leafs m) content"

section \<open>Auxiliary definitions\<close>


definition addParent :: "'c store \<Rightarrow> addr \<Rightarrow> addr \<Rightarrow> bytes \<Rightarrow> 'c store" where
  "addParent s l r d =
     (let n = length s;
          s1 = s @ [\<lparr>Parent = None, Left = Some l, Right = Some r,
                          leaf = False, dup = False, Hash = d, C = None\<rparr>];
          s2 = s1[l := (s1 ! l)\<lparr>Parent := Some n\<rparr>];
          s3 = s2[r := (s2 ! r)\<lparr>Parent := Some n\<rparr>]
      in s3)"

definition pairedAt ::
  "'e strategy \<Rightarrow> 'c store \<Rightarrow> 'c store \<Rightarrow> addr \<Rightarrow> nat \<Rightarrow> addr \<Rightarrow> nat \<Rightarrow> bool" where
  "pairedAt hs s s' b m p j \<longleftrightarrow>
     Parent (s' ! p) = None \<and>
     Left (s' ! p) = Some (b + j) \<and>
     Right (s' ! p) = Some (if j + 1 = m then b + j else b + j + 1) \<and>
     \<not> leaf (s' ! p) \<and> \<not> dup (s' ! p) \<and> C (s' ! p) = None \<and>
     hs (Hash (s ! (b + j)) @ Hash (s ! (if j + 1 = m then b + j else b + j + 1)))
       = Inr (Hash (s' ! p))"

definition childOf :: "'c store \<Rightarrow> addr \<Rightarrow> addr \<Rightarrow> bool" where
  "childOf s p a \<longleftrightarrow> Left (s ! p) = Some a \<or> Right (s ! p) = Some a"

definition internalNode :: "'e strategy \<Rightarrow> 'c store \<Rightarrow> addr \<Rightarrow> addr \<Rightarrow> bool" where
  "internalNode hs s b p \<longleftrightarrow>
     (\<exists>l r. Left (s ! p) = Some l \<and> Right (s ! p) = Some r \<and> b \<le> l \<and> l \<le> r \<and> r \<le> l + 1 \<and>
            r < p \<and> hs (Hash (s ! l) @ Hash (s ! r)) = Inr (Hash (s ! p)) \<and>
            \<not> leaf (s ! p) \<and> \<not> dup (s ! p) \<and> C (s ! p) = None)"

definition builtFrom :: "'e strategy \<Rightarrow> 'c store \<Rightarrow> 'c store \<Rightarrow> addr \<Rightarrow> addr \<Rightarrow> bool" where
  "builtFrom hs s s' b root \<longleftrightarrow>
     length s < length s' \<and> root = length s' - 1 \<and>
     (\<forall>a<b. s' ! a = s ! a) \<and>
     (\<forall>a<length s. s' ! a = (s ! a)\<lparr>Parent := Parent (s' ! a)\<rparr>) \<and>
     (\<forall>a. b \<le> a \<and> a < root \<longrightarrow>
        (\<exists>p. Parent (s' ! a) = Some p \<and> a < p \<and> p \<le> root \<and> length s \<le> p \<and> childOf s' p a)) \<and>
     (\<forall>p. length s \<le> p \<and> p \<le> root \<longrightarrow> internalNode hs s' b p) \<and>
     Parent (s' ! root) = None"



definition leafNode :: "'c \<Rightarrow> bytes \<Rightarrow> 'c Node" where
  "leafNode c h = \<lparr>Parent = None, Left = None, Right = None, leaf = True, dup = False,
                   Hash = h, C = Some c\<rparr>"

definition digestOf :: "('c \<Rightarrow> 'e + bytes) \<Rightarrow> 'c \<Rightarrow> bytes" where
  "digestOf CalculateHash c = (case CalculateHash c of Inl e \<Rightarrow> [] | Inr h \<Rightarrow> h)"

definition allDigests :: "('c \<Rightarrow> 'e + bytes) \<Rightarrow> 'c list \<Rightarrow> bool" where
  "allDigests CalculateHash cs \<longleftrightarrow> list_all (\<lambda>c. case CalculateHash c of Inl e \<Rightarrow> False | Inr h \<Rightarrow> True) cs"

definition paddedLeafs :: "('c \<Rightarrow> 'e + bytes) \<Rightarrow> 'c list \<Rightarrow> 'c Node list" where
  "paddedLeafs CalculateHash cs =
     map (\<lambda>c. leafNode c (digestOf CalculateHash c)) cs @
     (if length cs mod 2 = 1
      then [(leafNode (last cs) (digestOf CalculateHash (last cs)))\<lparr>dup := True\<rparr>] else [])"


text \<open>
  Fixtures for the examples: a digest function with 16-byte results in the place of md5,
  and a content type (natural numbers) whose digest fails on 0 and whose equality test
  fails on 13.
\<close>

definition stubMd5 :: "bytes \<Rightarrow> bytes" where
  "stubMd5 b = of_nat (length b) # sum_list b # [0, 0, 0, 0, 0, 0, 0, 0, 0, 0, 0, 0, 0, 0]"

definition probeHash :: "nat \<Rightarrow> string + bytes" where
  "probeHash n = (if n = 0 then Inl ''digest failed'' else Inr [of_nat n])"

definition probeEquals :: "nat \<Rightarrow> nat \<Rightarrow> string + bool" where
  "probeEquals a b = (if a = 13 then Inl ''equality failed'' else Inr (a = b))"

definition pairedLevel :: "'c store \<Rightarrow> 'c store \<Rightarrow> addr \<Rightarrow> bool" where
  "pairedLevel s s' b \<longleftrightarrow>
     (\<forall>j. b + j < length s \<longrightarrow>
        Parent (s' ! (b + j)) = Some (length s + j div 2) \<and>
        Left (s' ! (length s + j div 2)) = Some (b + 2 * (j div 2)) \<and>
        Right (s' ! (length s + j div 2)) =
          Some (if 2 * (j div 2) + 1 = length s - b then b + 2 * (j div 2)
                else b + 2 * (j div 2) + 1))"


text \<open>
  The trees NewTree builds, in an empty store, from the contents 1, 2, 3 and from the
  contents 1, ..., 5 with the fixtures above.
\<close>

definition exampleStore3 :: "nat store" where
  "exampleStore3 =
     [\<lparr>Parent = Some 4, Left = None, Right = None, leaf = True, dup = False,
       Hash = [1], C = Some 1\<rparr>,
      \<lparr>Parent = Some 4, Left = None, Right = None, leaf = True, dup = False,
       Hash = [2], C = Some 2\<rparr>,
      \<lparr>Parent = Some 5, Left = None, Right = None, leaf = True, dup = False,
       Hash = [3], C = Some 3\<rparr>,
      \<lparr>Parent = Some 5, Left = None, Right = None, leaf = True, dup = True,
       Hash = [3], C = Some 3\<rparr>,
      \<lparr>Parent = Some 6, Left = Some 0, Right = Some 1, leaf = False, dup = False,
       Hash = [2, 3, 0, 0, 0, 0, 0, 0, 0, 0, 0, 0, 0, 0, 0, 0], C = None\<rparr>,
      \<lparr>Parent = Some 6, Left = Some 2, Right = Some 3, leaf = False, dup = False,
       Hash = [2, 6, 0, 0, 0, 0, 0, 0, 0, 0, 0, 0, 0, 0, 0, 0], C = None\<rparr>,
      \<lparr>Parent = None, Left = Some 4, Right = Some 5, leaf = False, dup = False,
       Hash = [32, 13, 0, 0, 0, 0, 0, 0, 0, 0, 0, 0, 0, 0, 0, 0], C = None\<rparr>]"

definition exampleTree3 :: "string MerkleTree" where
  "exampleTree3 =
     \<lparr>Root = Some 6, merkleRoot = [32, 13, 0, 0, 0, 0, 0, 0, 0, 0, 0, 0, 0, 0, 0, 0],
      Leafs = [0, 1, 2, 3], hashStrategy = (\<lambda>b. Inr (stubMd5 b))\<rparr>"

definition exampleStore5 :: "nat store" where
  "exampleStore5 =
     [\<lparr>Parent = Some 6, Left = None, Right = None, leaf = True, dup = False,
       Hash = [1], C = Some 1\<rparr>,
      \<lparr>Parent = Some 6, Left = None, Right = None, leaf = True, dup = False,
       Hash = [2], C = Some 2\<rparr>,
      \<lparr>Parent = Some 7, Left = None, Right = None, leaf = True, dup = False,
       Hash = [3], C = Some 3\<rparr>,
      \<lparr>Parent = Some 7, Left = None, Right = None, leaf = True, dup = False,
       Hash = [4], C = Some 4\<rparr>,
      \<lparr>Parent = Some 8, Left = None, Right = None, leaf = True, dup = False,
       Hash = [5], C = Some 5\<rparr>,
      \<lparr>Parent = Some 8, Left = None, Right = None, leaf = True, dup = True,
       Hash = [5], C = Some 5\<rparr>,
      \<lparr>Parent = Some 9, Left = Some 0, Right = Some 1, leaf = False, dup = False,
       Hash = [2, 3, 0, 0, 0, 0, 0, 0, 0, 0, 0, 0, 0, 0, 0, 0], C = None\<rparr>,
      \<lparr>Parent = Some 9, Left = Some 2, Right = Some 3, leaf = False, dup = False,
       Hash = [2, 7, 0, 0, 0, 0, 0, 0, 0, 0, 0, 0, 0, 0, 0, 0], C = None\<rparr>,
      \<lparr>Parent = Some 10, Left = Some 4, Right = Some 5, leaf = False, dup = False,
       Hash = [2, 10, 0, 0, 0, 0, 0, 0, 0, 0, 0, 0, 0, 0, 0, 0], C = None\<rparr>,
      \<lparr>Parent = Some 11, Left = Some 6, Right = Some 7, leaf = False, dup = False,
       Hash = [32, 14, 0, 0, 0, 0, 0, 0, 0, 0, 0, 0, 0, 0, 0, 0], C = None\<rparr>,
      \<lparr>Parent = Some 11, Left = Some 8, Right = Some 8, leaf = False, dup = False,
       Hash = [32, 24, 0, 0, 0, 0, 0, 0, 0, 0, 0, 0, 0, 0, 0, 0], C = None\<rparr>,
      \<lparr>Parent = None, Left = Some 9, Right = Some 10, leaf = False, dup = False,
       Hash = [32, 102, 0, 0, 0, 0, 0, 0, 0, 0, 0, 0, 0, 0, 0, 0], C = None\<rparr>]"

definition exampleTree5 :: "string MerkleTree" where
  "exampleTree5 =
     \<lparr>Root = Some 11, merkleRoot = [32, 102, 0, 0, 0, 0, 0, 0, 0, 0, 0, 0, 0, 0, 0, 0],
      Leafs = [0, 1, 2, 3, 4, 5], hashStrategy = (\<lambda>b. Inr (stubMd5 b))\<rparr>"

text \<open>
  The store of the second example when its level of three nodes (the parents of the six
  leaves) is about to be reduced.
\<close>

definition exampleLevel5 :: "nat store" where
  "exampleLevel5 =
     [\<lparr>Parent = Some 6, Left = None, Right = None, leaf = True, dup = False,
       Hash = [1], C = Some 1\<rparr>,
      \<lparr>Parent = Some 6, Left = None, Right = None, leaf = True, dup = False,
       Hash = [2], C = Some 2\<rparr>,
      \<lparr>Parent = Some 7, Left = None, Right = None, leaf = True, dup = False,
       Hash = [3], C = Some 3\<rparr>,
      \<lparr>Parent = Some 7, Left = None, Right = None, leaf = True, dup = False,
       Hash = [4], C = Some 4\<rparr>,
      \<lparr>Parent = Some 8, Left = None, Right = None, leaf = True, dup = False,
       Hash = [5], C = Some 5\<rparr>,
      \<lparr>Parent = Some 8, Left = None, Right = None, leaf = True, dup = True,
       Hash = [5], C = Some 5\<rparr>,
      \<lparr>Parent = None, Left = Some 0, Right = Some 1, leaf = False, dup = False,
       Hash = [2, 3, 0, 0, 0, 0, 0, 0, 0, 0, 0, 0, 0, 0, 0, 0], C = None\<rparr>,
      \<lparr>Parent = None, Left = Some 2, Right = Some 3, leaf = False, dup = False,
       Hash = [2, 7, 0, 0, 0, 0, 0, 0, 0, 0, 0, 0, 0, 0, 0, 0], C = None\<rparr>,
      \<lparr>Parent = None, Left = Some 4, Right = Some 5, leaf = False, dup = False,
       Hash = [2, 10, 0, 0, 0, 0, 0, 0, 0, 0, 0, 0, 0, 0, 0, 0], C = None\<rparr>]"

section \<open>Lemmas about construction\<close>

lemma length_addParent: "length (addParent s l r d) = Suc (length s)"
  by (simp add: addParent_def Let_def)

lemma nth_addParent_old:
  "a < length s \<Longrightarrow> l < length s \<Longrightarrow> r < length s \<Longrightarrow>
   addParent s l r d ! a = (if a = l \<or> a = r then (s ! a)\<lparr>Parent := Some (length s)\<rparr> else s ! a)"
  by (auto simp: addParent_def Let_def nth_append nth_list_update)

lemma nth_addParent_new:
  "l < length s \<Longrightarrow> r < length s \<Longrightarrow>
   addParent s l r d ! (length s) = \<lparr>Parent = None, Left = Some l, Right = Some r,
                          leaf = False, dup = False, Hash = d, C = None\<rparr>"
  by (auto simp: addParent_def Let_def nth_append nth_list_update)

lemma pairLoop_done: "length nl \<le> i \<Longrightarrow> pairLoop hs nl i nodes s = Inr (Fallthrough nodes, s)"
  by simp

lemma pairLoop_step:
  assumes "i < length nl" "r = (if i + 1 = length nl then i else i + 1)"
    "nl ! i < length s" "nl ! r < length s"
  shows "pairLoop hs nl i nodes s =
     (case hs (Hash (s ! (nl ! i)) @ Hash (s ! (nl ! r))) of
        Inl e \<Rightarrow> Inl (Raised e)
      | Inr d \<Rightarrow> if length nl = 2 then Inr (Return (length s), addParent s (nl ! i) (nl ! r) d)
                 else pairLoop hs nl (i + 2) (nodes @ [length s]) (addParent s (nl ! i) (nl ! r) d))"
  using assms
  by (subst pairLoop.simps) (simp add: deref_def Let_def addParent_def split: sum.splits)

declare pairLoop.simps [simp del]

lemma pairedAt_cong:
  assumes "pairedAt hs s3 s' b m p j"
    and "s3 ! (b + j) = s ! (b + j)"
    and "j + 1 \<noteq> m \<Longrightarrow> s3 ! (b + j + 1) = s ! (b + j + 1)"
  shows "pairedAt hs s s' b m p j"
  using assms by (auto simp: pairedAt_def split: if_splits)

lemma pairLoop_level:
  assumes "pairLoop hs nl i nodes s = Inr (ex, s')"
    and "nl = [b..<b+m]" and "b + m \<le> length s" and "m \<noteq> 2"
  shows "ex = Fallthrough (nodes @ [length s..<length s']) \<and>
         length s' = length s + (m + 1 - i) div 2 \<and>
         (\<forall>a<length s. s' ! a =
             (if b + i \<le> a \<and> a < b + m
              then (s ! a)\<lparr>Parent := Some (length s + (a - (b + i)) div 2)\<rparr> else s ! a)) \<and>
         (\<forall>k. length s + k < length s' \<longrightarrow> pairedAt hs s s' b m (length s + k) (i + 2 * k))"
  using assms
proof (induction "m - i" arbitrary: i nodes s rule: less_induct)
  case less
  show ?case
  proof (cases "i < m")
    case False
    with less.prems show ?thesis by (auto simp add: pairLoop_done)
  next
    case True
    define r where "r = (if i + 1 = m then i else i + 1)"
    have rm: "r < m" using True by (simp add: r_def)
    have nli: "nl ! i = b + i" and nlr: "nl ! r = b + r"
      using True rm less.prems(2) by simp_all
    have len: "length nl = m" using less.prems(2) by simp
    have step: "pairLoop hs nl i nodes s =
       (case hs (Hash (s ! (b + i)) @ Hash (s ! (b + r))) of
          Inl e \<Rightarrow> Inl (Raised e)
        | Inr d \<Rightarrow> pairLoop hs nl (i + 2) (nodes @ [length s]) (addParent s (b + i) (b + r) d))"
    proof -
      have "pairLoop hs nl i nodes s =
       (case hs (Hash (s ! (nl ! i)) @ Hash (s ! (nl ! r))) of
          Inl e \<Rightarrow> Inl (Raised e)
        | Inr d \<Rightarrow> if length nl = 2 then Inr (Return (length s), addParent s (nl ! i) (nl ! r) d)
                 else pairLoop hs nl (i + 2) (nodes @ [length s]) (addParent s (nl ! i) (nl ! r) d))"
      proof (rule pairLoop_step)
        show "i < length nl" using True len by simp
        show "r = (if i + 1 = length nl then i else i + 1)" by (simp add: r_def len)
        show "nl ! i < length s" using nli True less.prems(3) by simp
        show "nl ! r < length s" using nlr rm less.prems(3) by simp
      qed
      then show ?thesis unfolding nli nlr len using less.prems(4) by (simp split: sum.split)
    qed
    then obtain d where d: "hs (Hash (s ! (b + i)) @ Hash (s ! (b + r))) = Inr d"
      and rec: "pairLoop hs nl (i + 2) (nodes @ [length s]) (addParent s (b + i) (b + r) d) = Inr (ex, s')"
      using less.prems(1) by (auto split: sum.splits)
    let ?s3 = "addParent s (b + i) (b + r) d"
    have l3: "length ?s3 = Suc (length s)" by (simp add: length_addParent)
    have IH: "ex = Fallthrough ((nodes @ [length s]) @ [length ?s3..<length s']) \<and>
         length s' = length ?s3 + (m + 1 - (i + 2)) div 2 \<and>
         (\<forall>a<length ?s3. s' ! a =
             (if b + (i + 2) \<le> a \<and> a < b + m
              then (?s3 ! a)\<lparr>Parent := Some (length ?s3 + (a - (b + (i + 2))) div 2)\<rparr> else ?s3 ! a)) \<and>
         (\<forall>k. length ?s3 + k < length s' \<longrightarrow> pairedAt hs ?s3 s' b m (length ?s3 + k) (i + 2 + 2 * k))"
      using less.hyps[of "i + 2" "nodes @ [length s]" ?s3] True rec less.prems(2,3,4) l3
      by simp
    have old: "\<And>a. a < length s \<Longrightarrow> ?s3 ! a =
        (if a = b + i \<or> a = b + r then (s ! a)\<lparr>Parent := Some (length s)\<rparr> else s ! a)"
      using nth_addParent_old[of _ s "b + i" "b + r" d] True rm less.prems(3) by simp
    have new: "?s3 ! length s = \<lparr>Parent = None, Left = Some (b + i), Right = Some (b + r),
                          leaf = False, dup = False, Hash = d, C = None\<rparr>"
      using nth_addParent_new[of "b + i" s "b + r" d] True rm less.prems(3) by simp
    have lens: "length s' = length s + (m + 1 - i) div 2"
      using IH l3 True by simp
    have upto: "[length s..<length s'] = length s # [length ?s3..<length s']"
      using lens True l3 by (simp add: upt_conv_Cons)
    have c1: "ex = Fallthrough (nodes @ [length s..<length s'])"
      using IH upto by simp
    have c3: "\<forall>a<length s. s' ! a =
             (if b + i \<le> a \<and> a < b + m
              then (s ! a)\<lparr>Parent := Some (length s + (a - (b + i)) div 2)\<rparr> else s ! a)"
    proof (intro allI impI)
      fix a assume a: "a < length s"
      then have "s' ! a = (if b + (i + 2) \<le> a \<and> a < b + m
              then (?s3 ! a)\<lparr>Parent := Some (length ?s3 + (a - (b + (i + 2))) div 2)\<rparr> else ?s3 ! a)"
        using IH l3 by simp
      then show "s' ! a = (if b + i \<le> a \<and> a < b + m
              then (s ! a)\<lparr>Parent := Some (length s + (a - (b + i)) div 2)\<rparr> else s ! a)"
        using old[OF a] l3 True by (auto simp: r_def split: if_splits)
    qed
    have c4: "\<forall>k. length s + k < length s' \<longrightarrow> pairedAt hs s s' b m (length s + k) (i + 2 * k)"
    proof (intro allI impI)
      fix k assume k: "length s + k < length s'"
      show "pairedAt hs s s' b m (length s + k) (i + 2 * k)"
      proof (cases k)
        case 0
        have "s' ! length s = ?s3 ! length s"
          using IH l3 less.prems(3) by simp
        then show ?thesis using 0 new d by (auto simp: r_def pairedAt_def split: if_splits)
      next
        case (Suc j)
        have j: "length ?s3 + j < length s'" using k Suc l3 by simp
        have e: "length s + k = length ?s3 + j" using Suc l3 by simp
        have e2: "i + 2 * k = i + 2 + 2 * j" using Suc by simp
        have jm: "i + 2 + 2 * j < m" using j lens l3 by simp
        have h1: "?s3 ! (b + (i + 2 + 2 * j)) = s ! (b + (i + 2 + 2 * j))"
          using old[of "b + (i + 2 + 2 * j)"] jm less.prems(3) by (simp add: r_def)
        have h2: "i + 2 + 2 * j + 1 \<noteq> m \<Longrightarrow> ?s3 ! (b + (i + 2 + 2 * j) + 1) = s ! (b + (i + 2 + 2 * j) + 1)"
          using old[of "b + (i + 2 + 2 * j) + 1"] jm less.prems(3) by (simp add: r_def)
        have "pairedAt hs ?s3 s' b m (length ?s3 + j) (i + 2 + 2 * j)"
          using IH j by blast
        then have "pairedAt hs s s' b m (length ?s3 + j) (i + 2 + 2 * j)"
          using h1 h2 by (rule pairedAt_cong)
        then show ?thesis unfolding e e2 .
      qed
    qed
    show ?thesis using c1 lens c3 c4 by blast
  qed
qed

lemma pairLoop_total:
  assumes "nl = [b..<b+m]" and "b + m \<le> length s" and "\<forall>x. \<exists>d. hs x = Inr d"
  shows "\<exists>ex s'. pairLoop hs nl i nodes s = Inr (ex, s')"
  using assms
proof (induction "m - i" arbitrary: i nodes s rule: less_induct)
  case less
  show ?case
  proof (cases "i < m")
    case False
    with less.prems show ?thesis by (simp add: pairLoop_done)
  next
    case True
    define r where "r = (if i + 1 = length nl then i else i + 1)"
    have len: "length nl = m" using less.prems(1) by simp
    have rm: "r < m" using True len by (simp add: r_def)
    have nli: "nl ! i = b + i" and nlr: "nl ! r = b + r"
      using True rm less.prems(1) by simp_all
    obtain d where d: "hs (Hash (s ! (nl ! i)) @ Hash (s ! (nl ! r))) = Inr d"
      using less.prems(3) by blast
    have step: "pairLoop hs nl i nodes s =
         (if length nl = 2 then Inr (Return (length s), addParent s (nl ! i) (nl ! r) d)
                 else pairLoop hs nl (i + 2) (nodes @ [length s]) (addParent s (nl ! i) (nl ! r) d))"
      using pairLoop_step[of i nl r s hs nodes] True len r_def nli nlr rm less.prems(2) d
      by simp
    show ?thesis
    proof (cases "length nl = 2")
      case True
      then show ?thesis using step by simp
    next
      case False
      have "\<exists>ex s'. pairLoop hs nl (i + 2) (nodes @ [length s]) (addParent s (nl ! i) (nl ! r) d) = Inr (ex, s')"
        using less.hyps[of "i + 2" "addParent s (nl ! i) (nl ! r) d" "nodes @ [length s]"]
          True less.prems by (simp add: length_addParent)
      then show ?thesis using step False by simp
    qed
  qed
qed

lemma upt_two: "[b..<b + 2] = [b, b + 1]"
  by (simp add: upt_rec)

lemma buildIntermediate_two:
  assumes "length s = b + 2"
  shows "buildIntermediate hs [b..<b+2] s =
     (case hs (Hash (s ! b) @ Hash (s ! (b + 1))) of
        Inl e \<Rightarrow> Some (Inl (Raised e))
      | Inr d \<Rightarrow> Some (Inr (length s, addParent s b (b + 1) d)))"
proof -
  have "pairLoop hs [b, b + 1] 0 [] s =
     (case hs (Hash (s ! b) @ Hash (s ! (b + 1))) of
        Inl e \<Rightarrow> Inl (Raised e)
      | Inr d \<Rightarrow> Inr (Return (length s), addParent s b (b + 1) d))"
    using pairLoop_step[of 0 "[b, b + 1]" 1 s hs "[]"] assms by (simp split: sum.split)
  then show ?thesis
    by (subst buildIntermediate.simps) (simp add: upt_two split: sum.split)
qed

lemma builtFrom_two:
  assumes "length s = b + 2" and "hs (Hash (s ! b) @ Hash (s ! (b + 1))) = Inr d"
  shows "builtFrom hs s (addParent s b (b + 1) d) b (length s)"
proof -
  let ?s' = "addParent s b (b + 1) d"
  have old: "\<And>a. a < length s \<Longrightarrow> ?s' ! a =
        (if a = b \<or> a = b + 1 then (s ! a)\<lparr>Parent := Some (length s)\<rparr> else s ! a)"
    using nth_addParent_old[of _ s b "b + 1" d] assms(1) by simp
  have new: "?s' ! length s = \<lparr>Parent = None, Left = Some b, Right = Some (b + 1),
                          leaf = False, dup = False, Hash = d, C = None\<rparr>"
    using nth_addParent_new[of b s "b + 1" d] assms(1) by simp
  have len: "length ?s' = Suc (length s)" by (simp add: length_addParent)
  have "internalNode hs ?s' b (length s)"
    unfolding internalNode_def using new old[of b] old[of "b + 1"] assms by simp
  moreover have "\<forall>a. b \<le> a \<and> a < length s \<longrightarrow>
        (\<exists>p. Parent (?s' ! a) = Some p \<and> a < p \<and> p \<le> length s \<and> length s \<le> p \<and> childOf ?s' p a)"
    using old new assms(1) by (auto simp: childOf_def)
  moreover have "\<forall>a<length s. ?s' ! a = (s ! a)\<lparr>Parent := Parent (?s' ! a)\<rparr>"
    using old by simp
  moreover have "\<forall>a<b. ?s' ! a = s ! a" using old assms(1) by simp
  ultimately show ?thesis
    unfolding builtFrom_def using len new by (auto simp: le_Suc_eq)
qed

lemma builtFrom_step:
  assumes len: "length s = b + m" and m3: "3 \<le> m"
    and len1: "length s1 = length s + (m + 1) div 2"
    and old: "\<forall>a<length s. s1 ! a =
             (if b \<le> a \<and> a < b + m
              then (s ! a)\<lparr>Parent := Some (length s + (a - b) div 2)\<rparr> else s ! a)"
    and new: "\<forall>k. length s + k < length s1 \<longrightarrow> pairedAt hs s s1 b m (length s + k) (2 * k)"
    and IH: "builtFrom hs s1 s' (length s) root"
  shows "builtFrom hs s s' b root"
proof -
  have l1: "length s1 < length s'" and root: "root = length s' - 1"
    and f2: "\<And>a. a < length s \<Longrightarrow> s' ! a = s1 ! a"
    and f3: "\<And>a. a < length s1 \<Longrightarrow> s' ! a = (s1 ! a)\<lparr>Parent := Parent (s' ! a)\<rparr>"
    and f4: "\<And>a. length s \<le> a \<Longrightarrow> a < root \<Longrightarrow>
        (\<exists>p. Parent (s' ! a) = Some p \<and> a < p \<and> p \<le> root \<and> length s1 \<le> p \<and> childOf s' p a)"
    and f5: "\<And>p. length s1 \<le> p \<Longrightarrow> p \<le> root \<Longrightarrow> internalNode hs s' (length s) p"
    and f6: "Parent (s' ! root) = None"
    using IH unfolding builtFrom_def by blast+
  have ss1: "length s < length s1" using len1 m3 by simp
  have r1: "length s1 \<le> root" using l1 root by simp
  have g2: "\<forall>a<b. s' ! a = s ! a"
    using f2 old len by simp
  have g3: "\<forall>a<length s. s' ! a = (s ! a)\<lparr>Parent := Parent (s' ! a)\<rparr>"
  proof (intro allI impI)
    fix a assume a: "a < length s"
    have "s1 ! a = (s ! a)\<lparr>Parent := Parent (s1 ! a)\<rparr>"
      using old a by simp
    then show "s' ! a = (s ! a)\<lparr>Parent := Parent (s' ! a)\<rparr>"
      using f2[OF a] by simp
  qed
  have hashes: "\<And>a. a < length s \<Longrightarrow> Hash (s' ! a) = Hash (s ! a)"
  proof -
    fix a assume "a < length s"
    then have "s' ! a = (s ! a)\<lparr>Parent := Parent (s' ! a)\<rparr>" using g3 by blast
    then have "Hash (s' ! a) = Hash ((s ! a)\<lparr>Parent := Parent (s' ! a)\<rparr>)" by simp
    then show "Hash (s' ! a) = Hash (s ! a)" by simp
  qed
  have lvl: "\<And>k. length s + k < length s1 \<Longrightarrow>
       Left (s' ! (length s + k)) = Some (b + 2 * k) \<and>
       Right (s' ! (length s + k)) = Some (if 2 * k + 1 = m then b + 2 * k else b + 2 * k + 1) \<and>
       \<not> leaf (s' ! (length s + k)) \<and> \<not> dup (s' ! (length s + k)) \<and>
       C (s' ! (length s + k)) = None \<and>
       hs (Hash (s ! (b + 2 * k)) @ Hash (s ! (if 2 * k + 1 = m then b + 2 * k else b + 2 * k + 1)))
         = Inr (Hash (s' ! (length s + k)))"
  proof -
    fix k assume k: "length s + k < length s1"
    have pa: "pairedAt hs s s1 b m (length s + k) (2 * k)" using new k by blast
    have "s' ! (length s + k) = (s1 ! (length s + k))\<lparr>Parent := Parent (s' ! (length s + k))\<rparr>"
      using f3[OF k] .
    then have eqs: "Left (s' ! (length s + k)) = Left (s1 ! (length s + k))"
      "Right (s' ! (length s + k)) = Right (s1 ! (length s + k))"
      "leaf (s' ! (length s + k)) = leaf (s1 ! (length s + k))"
      "dup (s' ! (length s + k)) = dup (s1 ! (length s + k))"
      "C (s' ! (length s + k)) = C (s1 ! (length s + k))"
      "Hash (s' ! (length s + k)) = Hash (s1 ! (length s + k))"
      by (metis Node.select_convs Node.surjective Node.update_convs(1))+
    show "Left (s' ! (length s + k)) = Some (b + 2 * k) \<and>
       Right (s' ! (length s + k)) = Some (if 2 * k + 1 = m then b + 2 * k else b + 2 * k + 1) \<and>
       \<not> leaf (s' ! (length s + k)) \<and> \<not> dup (s' ! (length s + k)) \<and>
       C (s' ! (length s + k)) = None \<and>
       hs (Hash (s ! (b + 2 * k)) @ Hash (s ! (if 2 * k + 1 = m then b + 2 * k else b + 2 * k + 1)))
         = Inr (Hash (s' ! (length s + k)))"
      using pa unfolding eqs pairedAt_def by simp
  qed
  have g4: "\<forall>a. b \<le> a \<and> a < root \<longrightarrow>
        (\<exists>p. Parent (s' ! a) = Some p \<and> a < p \<and> p \<le> root \<and> length s \<le> p \<and> childOf s' p a)"
  proof (intro allI impI)
    fix a assume a: "b \<le> a \<and> a < root"
    show "\<exists>p. Parent (s' ! a) = Some p \<and> a < p \<and> p \<le> root \<and> length s \<le> p \<and> childOf s' p a"
    proof (cases "a < length s")
      case True
      define k where "k = (a - b) div 2"
      have km: "length s + k < length s1" using True a len len1 by (simp add: k_def) arith
      have "s' ! a = (s ! a)\<lparr>Parent := Some (length s + k)\<rparr>"
        using f2[OF True] old True a len by (simp add: k_def)
      then have par: "Parent (s' ! a) = Some (length s + k)" by simp
      have ak: "a = b + 2 * k \<or> (a = b + 2 * k + 1 \<and> 2 * k + 1 \<noteq> m)"
        using a True len by (simp add: k_def) arith
      have "childOf s' (length s + k) a"
        using lvl[OF km] ak unfolding childOf_def by auto
      then show ?thesis using par True km r1 by auto
    next
      case False
      then show ?thesis using f4[of a] a ss1 by (meson le_trans less_imp_le not_le)
    qed
  qed
  have g5: "\<forall>p. length s \<le> p \<and> p \<le> root \<longrightarrow> internalNode hs s' b p"
  proof (intro allI impI)
    fix p assume p: "length s \<le> p \<and> p \<le> root"
    show "internalNode hs s' b p"
    proof (cases "p < length s1")
      case True
      define k where "k = p - length s"
      have pk: "p = length s + k" using p by (simp add: k_def)
      have km: "length s + k < length s1" using True pk by simp
      have k2: "2 * k < m" using km len1 by simp
      define r where "r = (if 2 * k + 1 = m then b + 2 * k else b + 2 * k + 1)"
      have rl: "r < length s" using k2 len by (simp add: r_def)
      have ll: "b + 2 * k < length s" using k2 len by simp
      have "Left (s' ! p) = Some (b + 2 * k)" "Right (s' ! p) = Some r"
        "\<not> leaf (s' ! p)" "\<not> dup (s' ! p)" "C (s' ! p) = None"
        "hs (Hash (s ! (b + 2 * k)) @ Hash (s ! r)) = Inr (Hash (s' ! p))"
        using lvl[OF km] unfolding pk r_def by simp_all
      moreover have "Hash (s' ! (b + 2 * k)) = Hash (s ! (b + 2 * k))" "Hash (s' ! r) = Hash (s ! r)"
        using hashes[OF ll] hashes[OF rl] by simp_all
      moreover have "b + 2 * k \<le> r" "r \<le> b + 2 * k + 1" "r < p"
        using rl p by (simp_all add: r_def)
      ultimately show ?thesis unfolding internalNode_def by auto
    next
      case False
      then have "internalNode hs s' (length s) p" using f5[of p] p by simp
      then show ?thesis unfolding internalNode_def using len by auto
    qed
  qed
  show ?thesis
    unfolding builtFrom_def using l1 ss1 root g2 g3 g4 g5 f6 by simp
qed




lemma buildIntermediate_unroll:
  assumes "length s = b + m" and "3 \<le> m"
  shows "buildIntermediate hs [b..<b+m] s =
     (case pairLoop hs [b..<b+m] 0 [] s of
       Inl e \<Rightarrow> Some (Inl e)
     | Inr (ex, s1) \<Rightarrow> buildIntermediate hs [length s..<length s + (m + 1) div 2] s1)"
proof (cases "pairLoop hs [b..<b+m] 0 [] s")
  case (Inl e)
  then show ?thesis by (subst buildIntermediate.simps) simp
next
  case (Inr r)
  obtain ex s1 where r: "r = (ex, s1)" by (cases r)
  have "ex = Fallthrough ([] @ [length s..<length s1]) \<and> length s1 = length s + (m + 1 - 0) div 2"
    using pairLoop_level[of hs "[b..<b+m]" 0 "[]" s ex s1 b m] Inr r assms by simp
  then show ?thesis using Inr r
    by (subst buildIntermediate.simps) simp
qed

lemma buildIntermediate_returns:
  assumes "length s = b + m" and "2 \<le> m"
  shows "\<exists>res. buildIntermediate hs [b..<b+m] s = Some res"
  using assms
proof (induction m arbitrary: b s rule: less_induct)
  case (less m)
  show ?case
  proof (cases "m = 2")
    case True
    then show ?thesis using buildIntermediate_two[of s b hs] less.prems
      by (simp split: sum.split)
  next
    case False
    then have m3: "3 \<le> m" using less.prems by simp
    show ?thesis
    proof (cases "pairLoop hs [b..<b+m] 0 [] s")
      case (Inl e)
      then show ?thesis using buildIntermediate_unroll[OF less.prems(1) m3, of hs] by simp
    next
      case (Inr r)
      obtain ex s1 where r: "r = (ex, s1)" by (cases r)
      have l1: "length s1 = length s + (m + 1) div 2"
        using pairLoop_level[of hs "[b..<b+m]" 0 "[]" s ex s1 b m] Inr r less.prems False by simp
      have "\<exists>res. buildIntermediate hs [length s..<length s + (m + 1) div 2] s1 = Some res"
        using less.IH[of "(m + 1) div 2" s1 "length s"] l1 m3 by simp
      then show ?thesis using buildIntermediate_unroll[OF less.prems(1) m3, of hs] Inr r by simp
    qed
  qed
qed

lemma buildIntermediate_built:
  assumes "length s = b + m" and "2 \<le> m"
    and "buildIntermediate hs [b..<b+m] s = Some (Inr (root, s'))"
  shows "builtFrom hs s s' b root"
  using assms
proof (induction m arbitrary: b s rule: less_induct)
  case (less m)
  show ?case
  proof (cases "m = 2")
    case True
    then obtain d where "hs (Hash (s ! b) @ Hash (s ! (b + 1))) = Inr d"
      and "root = length s" and "s' = addParent s b (b + 1) d"
      using buildIntermediate_two[of s b hs] less.prems by (auto split: sum.splits)
    then show ?thesis using builtFrom_two[of s b hs d] less.prems True by simp
  next
    case False
    then have m3: "3 \<le> m" using less.prems by simp
    obtain ex s1 where pl: "pairLoop hs [b..<b+m] 0 [] s = Inr (ex, s1)"
      and rec: "buildIntermediate hs [length s..<length s + (m + 1) div 2] s1 = Some (Inr (root, s'))"
      using buildIntermediate_unroll[OF less.prems(1) m3, of hs] less.prems(3)
      by (auto split: sum.splits)
    have lv: "length s1 = length s + (m + 1) div 2"
      "\<forall>a<length s. s1 ! a =
             (if b \<le> a \<and> a < b + m
              then (s ! a)\<lparr>Parent := Some (length s + (a - b) div 2)\<rparr> else s ! a)"
      "\<forall>k. length s + k < length s1 \<longrightarrow> pairedAt hs s s1 b m (length s + k) (2 * k)"
      using pairLoop_level[OF pl, of b m] less.prems False by simp_all
    have "builtFrom hs s1 s' (length s) root"
      using less.IH[of "(m + 1) div 2" s1 "length s"] lv(1) m3 rec by simp
    then show ?thesis
      using builtFrom_step[OF less.prems(1) m3 lv] by simp
  qed
qed

lemma buildIntermediate_succeeds:
  assumes "length s = b + m" and "2 \<le> m" and "\<forall>x. \<exists>d. hs x = Inr d"
  shows "\<exists>root s'. buildIntermediate hs [b..<b+m] s = Some (Inr (root, s'))"
  using assms
proof (induction m arbitrary: b s rule: less_induct)
  case (less m)
  show ?case
  proof (cases "m = 2")
    case True
    obtain d where "hs (Hash (s ! b) @ Hash (s ! (b + 1))) = Inr d"
      using less.prems(3) by blast
    then show ?thesis using buildIntermediate_two[of s b hs] less.prems True by simp
  next
    case False
    then have m3: "3 \<le> m" using less.prems by simp
    obtain ex s1 where pl: "pairLoop hs [b..<b+m] 0 [] s = Inr (ex, s1)"
      using pairLoop_total[of "[b..<b+m]" b m s hs 0 "[]"] less.prems by auto
    have l1: "length s1 = length s + (m + 1) div 2"
      using pairLoop_level[OF pl, of b m] less.prems False by simp
    have "\<exists>root s'. buildIntermediate hs [length s..<length s + (m + 1) div 2] s1 = Some (Inr (root, s'))"
      using less.IH[of "(m + 1) div 2" s1 "length s"] l1 m3 less.prems(3) by simp
    then show ?thesis using buildIntermediate_unroll[OF less.prems(1) m3, of hs] pl by simp
  qed
qed


lemma hashLeafs_ok:
  "allDigests CH cs \<Longrightarrow>
   hashLeafs CH cs leafs s =
     Inr (leafs @ [length s..<length s + length cs],
          s @ map (\<lambda>c. leafNode c (digestOf CH c)) cs)"
proof (induction cs arbitrary: leafs s)
  case Nil
  then show ?case by simp
next
  case (Cons c cs)
  then obtain h where h: "CH c = Inr h" and rest: "allDigests CH cs"
    by (auto simp: allDigests_def split: sum.splits)
  have "[length s..<length s + length (c # cs)] = length s # [Suc (length s)..<Suc (length s) + length cs]"
    using upt_conv_Cons[of "length s" "length s + Suc (length cs)"] by simp
  then show ?case using Cons.IH[OF rest] h
    by (simp add: leafNode_def digestOf_def)
qed

lemma hashLeafs_fail:
  "i < length cs \<Longrightarrow> CH (cs ! i) = Inl e \<Longrightarrow> allDigests CH (take i cs) \<Longrightarrow>
   hashLeafs CH cs leafs s = Inl (Raised e)"
proof (induction cs arbitrary: i leafs s)
  case Nil
  then show ?case by simp
next
  case (Cons c cs)
  show ?case
  proof (cases i)
    case 0
    then show ?thesis using Cons.prems by simp
  next
    case (Suc j)
    then obtain h where "CH c = Inr h" and "allDigests CH (take j cs)"
      using Cons.prems by (auto simp: allDigests_def split: sum.splits)
    then show ?thesis using Cons.IH[of j] Cons.prems Suc by simp
  qed
qed

lemma first_failure:
  "\<not> allDigests CH cs \<Longrightarrow> \<exists>i e. i < length cs \<and> CH (cs ! i) = Inl e \<and> allDigests CH (take i cs)"
proof (induction cs)
  case Nil
  then show ?case by (simp add: allDigests_def)
next
  case (Cons c cs)
  show ?case
  proof (cases "CH c")
    case (Inl e)
    then have "0 < length (c # cs) \<and> CH ((c # cs) ! 0) = Inl e \<and> allDigests CH (take 0 (c # cs))"
      by (simp add: allDigests_def)
    then show ?thesis by blast
  next
    case (Inr h)
    then have "\<not> allDigests CH cs" using Cons.prems by (simp add: allDigests_def)
    then obtain i e where "i < length cs" "CH (cs ! i) = Inl e" "allDigests CH (take i cs)"
      using Cons.IH by blast
    then have "Suc i < length (c # cs) \<and> CH ((c # cs) ! Suc i) = Inl e \<and> allDigests CH (take (Suc i) (c # cs))"
      using Inr by (simp add: allDigests_def)
    then show ?thesis by blast
  qed
qed

lemma length_paddedLeafs:
  "length (paddedLeafs CH cs) = (if length cs mod 2 = 1 then length cs + 1 else length cs)"
  by (simp add: paddedLeafs_def)

lemma buildWithContent_ok:
  assumes "cs \<noteq> []" and "allDigests CH cs"
  shows "buildWithContent hs CH cs s =
     (case buildIntermediate hs [length s..<length s + length (paddedLeafs CH cs)] (s @ paddedLeafs CH cs) of
        None \<Rightarrow> None
      | Some (Inl e) \<Rightarrow> Some (Inl e)
      | Some (Inr (root, s3)) \<Rightarrow>
          Some (Inr (root, [length s..<length s + length (paddedLeafs CH cs)], s3)))"
proof -
  let ?n = "length cs"
  let ?leafs = "[length s..<length s + ?n]"
  let ?s1 = "s @ map (\<lambda>c. leafNode c (digestOf CH c)) cs"
  have n: "0 < ?n" using assms(1) by simp
  have hl: "hashLeafs CH cs [] s = Inr (?leafs, ?s1)"
    using hashLeafs_ok[OF assms(2), of "[]" s] by simp
  have pad: "(if length ?leafs mod 2 = 1 then
                   (case deref ?s1 (?leafs ! (length ?leafs - 1)) of
                      None \<Rightarrow> Inl Panic
                    | Some lst \<Rightarrow>
                        Inr (?leafs @ [length ?s1],
                             ?s1 @ [\<lparr>Parent = None, Left = None, Right = None, leaf = True,
                                     dup = True, Hash = Hash lst, C = C lst\<rparr>]))
                 else Inr (?leafs, ?s1))
       = (Inr ([length s..<length s + length (paddedLeafs CH cs)], s @ paddedLeafs CH cs)
            :: 'e failure + (addr list \<times> 'a store))"
  proof (cases "?n mod 2 = 1")
    case False
    then show ?thesis by (simp add: paddedLeafs_def)
  next
    case True
    have idx: "?leafs ! (length ?leafs - 1) = length s + (?n - 1)"
      using n by simp
    have d: "deref ?s1 (length s + (?n - 1)) = Some (leafNode (last cs) (digestOf CH (last cs)))"
      using n assms(1) by (simp add: deref_def nth_append last_conv_nth)
    show ?thesis unfolding idx d using True
      by (simp add: paddedLeafs_def leafNode_def)
  qed
  have ne: "(length cs = 0) = False" using assms(1) by simp
  show ?thesis
    unfolding buildWithContent_def hl ne
    by (simp only: if_False sum.case prod.case pad)
qed

lemma NewTree_empty: "NewTree md5 CH [] s = Some (Inl NoContent)"
  by (simp add: NewTree_def buildWithContent_def)

lemma NewTree_digest_failure:
  assumes "i < length cs" and "CH (cs ! i) = Inl e" and "allDigests CH (take i cs)"
  shows "NewTree md5 CH cs s = Some (Inl (Raised e))"
proof -
  have "cs \<noteq> []" using assms(1) by auto
  then show ?thesis
    using hashLeafs_fail[OF assms, of "[]" s]
    by (simp add: NewTree_def buildWithContent_def)
qed

lemma NewTree_ok:
  fixes CH :: "'c \<Rightarrow> 'e + bytes"
  assumes "cs \<noteq> []" and "allDigests CH cs"
  shows "\<exists>root s'.
     NewTree md5 CH cs s =
       Some (Inr (\<lparr>Root = Some root, merkleRoot = Hash (s' ! root),
                   Leafs = [length s..<length s + length (paddedLeafs CH cs)],
                   hashStrategy = (\<lambda>b. Inr (md5 b))\<rparr>, s')) \<and>
     builtFrom ((\<lambda>b. Inr (md5 b)) :: 'e strategy) (s @ paddedLeafs CH cs) s' (length s) root"
proof -
  let ?hs = "(\<lambda>b. Inr (md5 b)) :: 'e strategy"
  let ?m = "length (paddedLeafs CH cs)"
  let ?s2 = "s @ paddedLeafs CH cs"
  have "0 < length cs" using assms(1) by simp
  then have m2: "2 \<le> ?m" unfolding length_paddedLeafs by presburger
  have len: "length ?s2 = length s + ?m" by simp
  obtain root s' where bi: "buildIntermediate ?hs [length s..<length s + ?m] ?s2 = Some (Inr (root, s'))"
    using buildIntermediate_succeeds[OF len m2, of ?hs] by auto
  have bf: "builtFrom ?hs ?s2 s' (length s) root"
    using buildIntermediate_built[OF len m2 bi] .
  then have "root < length s'" unfolding builtFrom_def by auto
  then have "deref s' root = Some (s' ! root)" by (simp add: deref_def)
  then have "NewTree md5 CH cs s =
       Some (Inr (\<lparr>Root = Some root, merkleRoot = Hash (s' ! root),
                   Leafs = [length s..<length s + ?m],
                   hashStrategy = ?hs\<rparr>, s'))"
    unfolding NewTree_def Let_def buildWithContent_ok[OF assms] bi by simp
  then show ?thesis using bf by blast
qed

lemma NewTree_returns:
  fixes CH :: "'c \<Rightarrow> 'e + bytes"
  shows "\<exists>res. NewTree md5 CH cs s = Some res"
proof (cases "cs = []")
  case True
  then have "NewTree md5 CH cs s = Some (Inl NoContent)" by (simp add: NewTree_empty)
  then show ?thesis by simp
next
  case False
  show ?thesis
  proof (cases "allDigests CH cs")
    case True
    obtain root s' where "NewTree md5 CH cs s =
       Some (Inr (\<lparr>Root = Some root, merkleRoot = Hash (s' ! root),
                   Leafs = [length s..<length s + length (paddedLeafs CH cs)],
                   hashStrategy = (\<lambda>b. Inr (md5 b))\<rparr>, s'))"
      using NewTree_ok[OF False True, of md5 s] by blast
    then show ?thesis by simp
  next
    case False
    then obtain i e where "i < length cs" "CH (cs ! i) = Inl e" "allDigests CH (take i cs)"
      using first_failure by blast
    then have "NewTree md5 CH cs s = Some (Inl (Raised e))" by (rule NewTree_digest_failure)
    then show ?thesis by simp
  qed
qed

lemma NewTree_Inr:
  fixes CH :: "'c \<Rightarrow> 'e + bytes"
  assumes "NewTree md5 CH cs s = Some (Inr (t, s'))"
  shows "cs \<noteq> [] \<and> allDigests CH cs \<and>
     (\<exists>root. t = \<lparr>Root = Some root, merkleRoot = Hash (s' ! root),
                   Leafs = [length s..<length s + length (paddedLeafs CH cs)],
                   hashStrategy = (\<lambda>b. Inr (md5 b))\<rparr> \<and>
        builtFrom ((\<lambda>b. Inr (md5 b)) :: 'e strategy) (s @ paddedLeafs CH cs) s' (length s) root)"
proof -
  have ne: "cs \<noteq> []" using assms NewTree_empty[of md5 CH s] by auto
  have ad: "allDigests CH cs"
  proof (rule ccontr)
    assume "\<not> allDigests CH cs"
    then obtain i e where "i < length cs" "CH (cs ! i) = Inl e" "allDigests CH (take i cs)"
      using first_failure by blast
    then have "NewTree md5 CH cs s = Some (Inl (Raised e))" by (rule NewTree_digest_failure)
    then show False using assms by simp
  qed
  obtain root s2 where
    nt: "NewTree md5 CH cs s =
       Some (Inr (\<lparr>Root = Some root, merkleRoot = Hash (s2 ! root),
                   Leafs = [length s..<length s + length (paddedLeafs CH cs)],
                   hashStrategy = (\<lambda>b. Inr (md5 b))\<rparr>, s2))"
    and bf: "builtFrom ((\<lambda>b. Inr (md5 b)) :: 'e strategy) (s @ paddedLeafs CH cs) s2 (length s) root"
    using NewTree_ok[OF ne ad, of md5 s] by blast
  have e: "(\<lparr>Root = Some root, merkleRoot = Hash (s2 ! root),
                   Leafs = [length s..<length s + length (paddedLeafs CH cs)],
                   hashStrategy = (\<lambda>b. Inr (md5 b))\<rparr>, s2) = (t, s')"
    using assms unfolding nt by (simp only: option.inject sum.inject)
  have s2: "s2 = s'" using e by (rule Pair_inject)
  have t: "t = \<lparr>Root = Some root, merkleRoot = Hash (s2 ! root),
                   Leafs = [length s..<length s + length (paddedLeafs CH cs)],
                   hashStrategy = (\<lambda>b. Inr (md5 b))\<rparr>"
    using e by (rule Pair_inject) (erule sym)
  show ?thesis using ne ad bf t unfolding s2 by (intro conjI exI[of _ root]) simp_all
qed

lemma scanLeafs_skip:
  assumes "\<forall>a\<in>set pre. \<exists>n c. deref s a = Some n \<and> C n = Some c \<and> Equals c x = Inr False"
  shows "scanLeafs Equals s (pre @ rest) x = scanLeafs Equals s rest x"
  using assms by (induction pre) auto

lemma Parent_update_fields:
  assumes "n' = n\<lparr>Parent := q\<rparr>"
  shows "Left n' = Left n" "Right n' = Right n" "leaf n' = leaf n" "dup n' = dup n"
    "C n' = C n" "Hash n' = Hash n"
  using assms by simp_all

lemma buildIntermediate_pairedLevel:
  assumes len: "length s = b + m" and m2: "2 \<le> m"
    and bi: "buildIntermediate hs [b..<b+m] s = Some (Inr (root, s'))"
  shows "pairedLevel s s' b"
proof (cases "m = 2")
  case True
  then obtain d where "s' = addParent s b (b + 1) d"
    using buildIntermediate_two[of s b hs] len bi by (auto split: sum.splits)
  moreover have "\<And>a. a < length s \<Longrightarrow> addParent s b (b + 1) d ! a =
        (if a = b \<or> a = b + 1 then (s ! a)\<lparr>Parent := Some (length s)\<rparr> else s ! a)"
    using nth_addParent_old[of _ s b "b + 1" d] len True by simp
  moreover have "addParent s b (b + 1) d ! length s = \<lparr>Parent = None, Left = Some b, Right = Some (b + 1),
                          leaf = False, dup = False, Hash = d, C = None\<rparr>"
    using nth_addParent_new[of b s "b + 1" d] len True by simp
  moreover have "\<And>j. b + j < length s \<Longrightarrow> j div 2 = 0" using len True by simp
  ultimately show ?thesis unfolding pairedLevel_def using len True by auto
next
  case False
  then have m3: "3 \<le> m" using m2 by simp
  obtain ex s1 where pl: "pairLoop hs [b..<b+m] 0 [] s = Inr (ex, s1)"
    and rec: "buildIntermediate hs [length s..<length s + (m + 1) div 2] s1 = Some (Inr (root, s'))"
    using buildIntermediate_unroll[OF len m3, of hs] bi by (auto split: sum.splits)
  have lv: "length s1 = length s + (m + 1) div 2"
      "\<forall>a<length s. s1 ! a =
             (if b \<le> a \<and> a < b + m
              then (s ! a)\<lparr>Parent := Some (length s + (a - b) div 2)\<rparr> else s ! a)"
      "\<forall>k. length s + k < length s1 \<longrightarrow> pairedAt hs s s1 b m (length s + k) (2 * k)"
    using pairLoop_level[OF pl, of b m] len False by simp_all
  have bf: "builtFrom hs s1 s' (length s) root"
    using buildIntermediate_built[of s1 "length s" "(m + 1) div 2" hs root s'] lv(1) m3 rec by simp
  have f2: "\<And>a. a < length s \<Longrightarrow> s' ! a = s1 ! a"
    and f3: "\<And>a. a < length s1 \<Longrightarrow> s' ! a = (s1 ! a)\<lparr>Parent := Parent (s' ! a)\<rparr>"
    using bf unfolding builtFrom_def by blast+
  show ?thesis unfolding pairedLevel_def
  proof (intro allI impI)
    fix j assume j: "b + j < length s"
    let ?k = "j div 2"
    have km: "length s + ?k < length s1" using j len lv(1) by simp
    have "s' ! (b + j) = (s ! (b + j))\<lparr>Parent := Some (length s + ?k)\<rparr>"
      using f2[OF j] lv(2) j len by simp
    then have p: "Parent (s' ! (b + j)) = Some (length s + ?k)" by simp
    have pa: "pairedAt hs s s1 b m (length s + ?k) (2 * ?k)" using lv(3) km by blast
    have lr: "Left (s' ! (length s + ?k)) = Left (s1 ! (length s + ?k))"
      "Right (s' ! (length s + ?k)) = Right (s1 ! (length s + ?k))"
      using Parent_update_fields[OF f3[OF km]] by simp_all
    have m: "length s - b = m" using len by simp
    show "Parent (s' ! (b + j)) = Some (length s + ?k) \<and>
        Left (s' ! (length s + ?k)) = Some (b + 2 * ?k) \<and>
        Right (s' ! (length s + ?k)) =
          Some (if 2 * ?k + 1 = length s - b then b + 2 * ?k else b + 2 * ?k + 1)"
      using p pa unfolding lr m pairedAt_def by simp
  qed
qed



lemma paddedLeafs_nth:
  "j < length cs \<Longrightarrow> paddedLeafs CH cs ! j = leafNode (cs ! j) (digestOf CH (cs ! j))"
  by (simp add: paddedLeafs_def nth_append)

lemma paddedLeafs_last:
  "length cs mod 2 = 1 \<Longrightarrow>
   paddedLeafs CH cs ! length cs = (leafNode (last cs) (digestOf CH (last cs)))\<lparr>dup := True\<rparr>"
  by (simp add: paddedLeafs_def nth_append)

lemma built_leaf:
  assumes bf: "builtFrom hs (s0 @ ls) s (length s0) root" and j: "j < length ls"
  shows "s ! (length s0 + j) = (ls ! j)\<lparr>Parent := Parent (s ! (length s0 + j))\<rparr>"
    and "deref s (length s0 + j) = Some (s ! (length s0 + j))"
proof -
  have "length s0 + j < length (s0 @ ls)" using j by simp
  moreover have f: "\<forall>a<length (s0 @ ls). s ! a = ((s0 @ ls) ! a)\<lparr>Parent := Parent (s ! a)\<rparr>"
    and l: "length (s0 @ ls) < length s"
    using bf unfolding builtFrom_def by blast+
  ultimately have "s ! (length s0 + j) = ((s0 @ ls) ! (length s0 + j))\<lparr>Parent := Parent (s ! (length s0 + j))\<rparr>"
    by blast
  then show "s ! (length s0 + j) = (ls ! j)\<lparr>Parent := Parent (s ! (length s0 + j))\<rparr>"
    by simp
  show "deref s (length s0 + j) = Some (s ! (length s0 + j))"
    using l j by (simp add: deref_def)
qed

lemma allDigests_nth:
  "allDigests CH cs \<Longrightarrow> j < length cs \<Longrightarrow> CH (cs ! j) = Inr (digestOf CH (cs ! j))"
  by (auto simp: allDigests_def digestOf_def list_all_length split: sum.splits)

lemma NewTree_leaf:
  fixes CH :: "'c \<Rightarrow> 'e + bytes"
  assumes nt: "NewTree md5 CH cs s0 = Some (Inr (t, s))" and j: "j < length cs"
  shows "Leafs t ! j = length s0 + j"
    and "deref s (length s0 + j) = Some (s ! (length s0 + j))"
    and "C (s ! (length s0 + j)) = Some (cs ! j)"
    and "Hash (s ! (length s0 + j)) = digestOf CH (cs ! j)"
    and "CH (cs ! j) = Inr (digestOf CH (cs ! j))"
    and "leaf (s ! (length s0 + j))" and "\<not> dup (s ! (length s0 + j))"
    and "Left (s ! (length s0 + j)) = None" and "Right (s ! (length s0 + j)) = None"
proof -
  obtain root where t: "t = \<lparr>Root = Some root, merkleRoot = Hash (s ! root),
                   Leafs = [length s0..<length s0 + length (paddedLeafs CH cs)],
                   hashStrategy = (\<lambda>b. Inr (md5 b))\<rparr>"
    and bf: "builtFrom ((\<lambda>b. Inr (md5 b)) :: 'e strategy) (s0 @ paddedLeafs CH cs) s (length s0) root"
    and ad: "allDigests CH cs"
    using NewTree_Inr[OF nt] by blast
  have jm: "j < length (paddedLeafs CH cs)" using j by (simp add: length_paddedLeafs)
  show "Leafs t ! j = length s0 + j" using t jm by simp
  note bl = built_leaf[OF bf jm]
  show "deref s (length s0 + j) = Some (s ! (length s0 + j))" by (rule bl(2))
  have n: "s ! (length s0 + j) =
      (leafNode (cs ! j) (digestOf CH (cs ! j)))\<lparr>Parent := Parent (s ! (length s0 + j))\<rparr>"
    using bl(1) paddedLeafs_nth[OF j, of CH] by simp
  show "C (s ! (length s0 + j)) = Some (cs ! j)"
    using Parent_update_fields(5)[OF n] by (simp add: leafNode_def)
  show "Hash (s ! (length s0 + j)) = digestOf CH (cs ! j)"
    using Parent_update_fields(6)[OF n] by (simp add: leafNode_def)
  show "CH (cs ! j) = Inr (digestOf CH (cs ! j))" using allDigests_nth[OF ad j] .
  show "leaf (s ! (length s0 + j))"
    using Parent_update_fields(3)[OF n] by (simp add: leafNode_def)
  show "\<not> dup (s ! (length s0 + j))"
    using Parent_update_fields(4)[OF n] by (simp add: leafNode_def)
  show "Left (s ! (length s0 + j)) = None"
    using Parent_update_fields(1)[OF n] by (simp add: leafNode_def)
  show "Right (s ! (length s0 + j)) = None"
    using Parent_update_fields(2)[OF n] by (simp add: leafNode_def)
qed










lemma NewTree_shape:
  fixes CH :: "'c \<Rightarrow> 'e + bytes"
  assumes nt: "NewTree md5 CH cs s0 = Some (Inr (t, s))"
  shows "\<exists>root. Root t = Some root \<and> root = length s - 1 \<and> merkleRoot t = Hash (s ! root) \<and>
           Leafs t = [length s0..<length s0 + length (paddedLeafs CH cs)] \<and>
           hashStrategy t = (\<lambda>b. Inr (md5 b)) \<and>
           length s0 + length (paddedLeafs CH cs) \<le> root \<and> root < length s \<and>
           Parent (s ! root) = None \<and>
           (\<forall>a<length s0. s ! a = s0 ! a) \<and>
           (\<forall>j<length (paddedLeafs CH cs).
               s ! (length s0 + j) = (paddedLeafs CH cs ! j)\<lparr>Parent := Parent (s ! (length s0 + j))\<rparr>) \<and>
           (\<forall>p. length s0 + length (paddedLeafs CH cs) \<le> p \<and> p \<le> root \<longrightarrow>
               internalNode ((\<lambda>b. Inr (md5 b)) :: 'e strategy) s (length s0) p)"
proof -
  obtain root where t: "t = \<lparr>Root = Some root, merkleRoot = Hash (s ! root),
                   Leafs = [length s0..<length s0 + length (paddedLeafs CH cs)],
                   hashStrategy = (\<lambda>b. Inr (md5 b))\<rparr>"
    and bf: "builtFrom ((\<lambda>b. Inr (md5 b)) :: 'e strategy) (s0 @ paddedLeafs CH cs) s (length s0) root"
    using NewTree_Inr[OF nt] by blast
  have l: "length (s0 @ paddedLeafs CH cs) < length s" and r: "root = length s - 1"
    and pr: "Parent (s ! root) = None"
    and fr: "\<forall>a<length s0. s ! a = (s0 @ paddedLeafs CH cs) ! a"
    and int: "\<forall>p. length (s0 @ paddedLeafs CH cs) \<le> p \<and> p \<le> root \<longrightarrow>
               internalNode ((\<lambda>b. Inr (md5 b)) :: 'e strategy) s (length s0) p"
    using bf unfolding builtFrom_def by blast+
  have lf: "\<forall>j<length (paddedLeafs CH cs).
               s ! (length s0 + j) = (paddedLeafs CH cs ! j)\<lparr>Parent := Parent (s ! (length s0 + j))\<rparr>"
    using built_leaf(1)[OF bf] by blast
  have fr': "\<forall>a<length s0. s ! a = s0 ! a" using fr by (simp add: nth_append)
  have b: "length s0 + length (paddedLeafs CH cs) \<le> root" "root < length s"
    using l r by simp_all
  show ?thesis
    using t b r pr fr' lf int by (intro exI[of _ root]) simp
qed

lemma NewTree_dup_leaf:
  fixes CH :: "'c \<Rightarrow> 'e + bytes"
  assumes nt: "NewTree md5 CH cs s0 = Some (Inr (t, s))" and odd: "length cs mod 2 = 1"
  shows "length (Leafs t) = length cs + 1"
    and "Leafs t ! length cs = length s0 + length cs"
    and "C (s ! (length s0 + length cs)) = Some (last cs)"
    and "Hash (s ! (length s0 + length cs)) = digestOf CH (last cs)"
    and "leaf (s ! (length s0 + length cs))" and "dup (s ! (length s0 + length cs))"
proof -
  obtain root where sh: "Leafs t = [length s0..<length s0 + length (paddedLeafs CH cs)]"
    "\<forall>j<length (paddedLeafs CH cs).
               s ! (length s0 + j) = (paddedLeafs CH cs ! j)\<lparr>Parent := Parent (s ! (length s0 + j))\<rparr>"
    using NewTree_shape[OF nt] by blast
  have m: "length (paddedLeafs CH cs) = length cs + 1" using odd by (simp add: length_paddedLeafs)
  show "length (Leafs t) = length cs + 1" using sh(1) m by simp
  have "[length s0..<length s0 + (length cs + 1)] ! length cs = length s0 + length cs"
    by (rule nth_upt) simp
  then show "Leafs t ! length cs = length s0 + length cs" using sh(1) m by simp
  have n: "s ! (length s0 + length cs) =
      ((leafNode (last cs) (digestOf CH (last cs)))\<lparr>dup := True\<rparr>)\<lparr>Parent := Parent (s ! (length s0 + length cs))\<rparr>"
  proof -
    have "length cs < length (paddedLeafs CH cs)" using m by simp
    then have "s ! (length s0 + length cs) =
       (paddedLeafs CH cs ! length cs)\<lparr>Parent := Parent (s ! (length s0 + length cs))\<rparr>"
      using sh(2) by blast
    then show ?thesis unfolding paddedLeafs_last[OF odd, of CH] .
  qed
  show "C (s ! (length s0 + length cs)) = Some (last cs)"
    using Parent_update_fields(5)[OF n] by (simp add: leafNode_def)
  show "Hash (s ! (length s0 + length cs)) = digestOf CH (last cs)"
    using Parent_update_fields(6)[OF n] by (simp add: leafNode_def)
  show "leaf (s ! (length s0 + length cs))"
    using Parent_update_fields(3)[OF n] by (simp add: leafNode_def)
  show "dup (s ! (length s0 + length cs))"
    using Parent_update_fields(4)[OF n] by (simp add: leafNode_def)
qed



lemmas eval_defs = NewTree_def buildWithContent_def deref_def buildIntermediate.simps
  pairLoop.simps stubMd5_def probeHash_def Let_def

lemma NewTree_example3:
  "NewTree stubMd5 probeHash [1, 2, 3] [] = Some (Inr (exampleTree3, exampleStore3))"
  by (simp add: eval_defs exampleTree3_def exampleStore3_def)

lemma NewTree_example5:
  "NewTree stubMd5 probeHash [1, 2, 3, 4, 5] [] = Some (Inr (exampleTree5, exampleStore5))"
  by (simp add: eval_defs exampleTree5_def exampleStore5_def)

lemma buildIntermediate_example5:
  "buildIntermediate (\<lambda>b. Inr (stubMd5 b)) [6..<6 + 3] exampleLevel5
     = Some (Inr (11, exampleStore5))"
  by (simp add: eval_defs exampleLevel5_def exampleStore5_def upt_rec)

lemma NewTree_buildIntermediate:
  fixes CH :: "'c \<Rightarrow> 'e + bytes"
  assumes nt: "NewTree md5 CH cs s0 = Some (Inr (t, s))"
  shows "\<exists>root. buildIntermediate ((\<lambda>b. Inr (md5 b)) :: 'e strategy)
            [length s0..<length s0 + length (paddedLeafs CH cs)] (s0 @ paddedLeafs CH cs)
           = Some (Inr (root, s))"
proof -
  have ne: "cs \<noteq> []" and ad: "allDigests CH cs" using NewTree_Inr[OF nt] by simp_all
  let ?hs = "(\<lambda>b. Inr (md5 b)) :: 'e strategy"
  let ?m = "length (paddedLeafs CH cs)"
  let ?s2 = "s0 @ paddedLeafs CH cs"
  have "0 < length cs" using ne by simp
  then have m2: "2 \<le> ?m" unfolding length_paddedLeafs by presburger
  have len: "length ?s2 = length s0 + ?m" by simp
  obtain root s' where bi: "buildIntermediate ?hs [length s0..<length s0 + ?m] ?s2 = Some (Inr (root, s'))"
    using buildIntermediate_succeeds[OF len m2, of ?hs] by auto
  have bf: "builtFrom ?hs ?s2 s' (length s0) root"
    using buildIntermediate_built[OF len m2 bi] .
  then have "root < length s'" unfolding builtFrom_def by auto
  then have "deref s' root = Some (s' ! root)" by (simp add: deref_def)
  then have "NewTree md5 CH cs s0 =
       Some (Inr (\<lparr>Root = Some root, merkleRoot = Hash (s' ! root),
                   Leafs = [length s0..<length s0 + ?m],
                   hashStrategy = ?hs\<rparr>, s'))"
    unfolding NewTree_def Let_def buildWithContent_ok[OF ne ad] bi by simp
  then have e: "(\<lparr>Root = Some root, merkleRoot = Hash (s' ! root),
                   Leafs = [length s0..<length s0 + ?m],
                   hashStrategy = ?hs\<rparr>, s') = (t, s)"
    using nt by simp
  have "s' = s" using e by (rule Pair_inject)
  then show ?thesis using bi by blast
qed

lemma NewTree_pairedLevel:
  fixes CH :: "'c \<Rightarrow> 'e + bytes"
  assumes nt: "NewTree md5 CH cs s0 = Some (Inr (t, s))"
  shows "pairedLevel (s0 @ paddedLeafs CH cs) s (length s0)"
proof -
  obtain root where bi: "buildIntermediate ((\<lambda>b. Inr (md5 b)) :: 'e strategy)
            [length s0..<length s0 + length (paddedLeafs CH cs)] (s0 @ paddedLeafs CH cs)
           = Some (Inr (root, s))"
    using NewTree_buildIntermediate[OF nt] by blast
  have ne: "cs \<noteq> []" using NewTree_Inr[OF nt] by simp
  then have "0 < length cs" by simp
  then have m2: "2 \<le> length (paddedLeafs CH cs)" unfolding length_paddedLeafs by presburger
  have len: "length (s0 @ paddedLeafs CH cs) = length s0 + length (paddedLeafs CH cs)" by simp
  show ?thesis using buildIntermediate_pairedLevel[OF len m2 bi] .
qed

section \<open>The claims\<close>

text \<open>
  C5: building from an empty list fails with the construction error; NewTree always
  returns; it returns an error exactly when the list is empty or a content digest
  fails, and then the error is the one of the first failing digest, passed on as it is;
  a tree is returned only when every digest succeeded.
\<close>

theorem NewTree_failure:
  fixes CH :: "'c \<Rightarrow> 'e + bytes"
  shows "NewTree md5 CH [] s = Some (Inl NoContent) \<and>
         (\<exists>res. NewTree md5 CH cs s = Some res) \<and>
         (\<forall>err. NewTree md5 CH cs s = Some (Inl err) \<longleftrightarrow>
             (cs = [] \<and> err = NoContent) \<or>
             (\<exists>i e. i < length cs \<and> allDigests CH (take i cs) \<and> CH (cs ! i) = Inl e \<and>
                    err = Raised e)) \<and>
         (\<forall>t s'. NewTree md5 CH cs s = Some (Inr (t, s')) \<longrightarrow> cs \<noteq> [] \<and> allDigests CH cs)"
proof (intro conjI allI impI)
  show "NewTree md5 CH [] s = Some (Inl NoContent)" by (rule NewTree_empty)
  show "\<exists>res. NewTree md5 CH cs s = Some res" by (rule NewTree_returns)
next
  fix t s' assume a: "NewTree md5 CH cs s = Some (Inr (t, s'))"
  show "cs \<noteq> []" using NewTree_Inr[OF a] by simp
  show "allDigests CH cs" using NewTree_Inr[OF a] by simp
next
  fix err
  show "NewTree md5 CH cs s = Some (Inl err) \<longleftrightarrow>
             (cs = [] \<and> err = NoContent) \<or>
             (\<exists>i e. i < length cs \<and> allDigests CH (take i cs) \<and> CH (cs ! i) = Inl e \<and>
                    err = Raised e)"
  proof
    assume l: "NewTree md5 CH cs s = Some (Inl err)"
    show "(cs = [] \<and> err = NoContent) \<or>
             (\<exists>i e. i < length cs \<and> allDigests CH (take i cs) \<and> CH (cs ! i) = Inl e \<and>
                    err = Raised e)"
    proof (cases "cs = []")
      case True
      then show ?thesis using l NewTree_empty[of md5 CH s] by simp
    next
      case False
      have "\<not> allDigests CH cs"
      proof
        assume "allDigests CH cs"
        then obtain root s' where "NewTree md5 CH cs s =
           Some (Inr (\<lparr>Root = Some root, merkleRoot = Hash (s' ! root),
                   Leafs = [length s..<length s + length (paddedLeafs CH cs)],
                   hashStrategy = (\<lambda>b. Inr (md5 b))\<rparr>, s'))"
          using NewTree_ok[OF False, of CH md5 s] by blast
        then show False using l by simp
      qed
      then obtain i e where ie: "i < length cs" "CH (cs ! i) = Inl e" "allDigests CH (take i cs)"
        using first_failure by blast
      then have "NewTree md5 CH cs s = Some (Inl (Raised e))" by (rule NewTree_digest_failure)
      then have "err = Raised e" using l by simp
      then show ?thesis using ie by blast
    qed
  next
    assume "(cs = [] \<and> err = NoContent) \<or>
             (\<exists>i e. i < length cs \<and> allDigests CH (take i cs) \<and> CH (cs ! i) = Inl e \<and>
                    err = Raised e)"
    then show "NewTree md5 CH cs s = Some (Inl err)"
    proof
      assume "cs = [] \<and> err = NoContent"
      then show ?thesis by (simp add: NewTree_empty)
    next
      assume "\<exists>i e. i < length cs \<and> allDigests CH (take i cs) \<and> CH (cs ! i) = Inl e \<and>
                    err = Raised e"
      then obtain i e where "i < length cs" "CH (cs ! i) = Inl e" "allDigests CH (take i cs)"
        and "err = Raised e" by blast
      then show ?thesis using NewTree_digest_failure[of i cs CH e md5 s] by simp
    qed
  qed
qed

theorem NewTree_failure_witness:
  "NewTree stubMd5 probeHash [] ([] :: nat store) = Some (Inl NoContent) \<and>
   NewTree stubMd5 probeHash [1, 0, 2] ([] :: nat store) = Some (Inl (Raised ''digest failed''))"
proof -
  have "\<exists>i e. i < length [1, 0, 2 :: nat] \<and> allDigests probeHash (take i [1, 0, 2]) \<and>
          probeHash ([1, 0, 2] ! i) = Inl e \<and> Raised ''digest failed'' = Raised e"
    by (intro exI[of _ 1] exI[of _ "''digest failed''"]) (simp add: allDigests_def probeHash_def)
  then show ?thesis
    using NewTree_failure[of stubMd5 probeHash "[] :: nat store" "[1, 0, 2]"] by blast
qed

text \<open>
  C6: when every leaf before the end of the list holds a content whose equality test
  against the target returns false, GetMerklePath returns the empty pair and no error;
  when the test of the first leaf that does not return false fails, GetMerklePath returns
  that error, which is a different result.
\<close>

theorem GetMerklePath_not_found:
  assumes "\<forall>a\<in>set pre. \<exists>n c. deref s a = Some n \<and> C n = Some c \<and> Equals c x = Inr False"
  shows "(Leafs m = pre \<longrightarrow> GetMerklePath Equals m s x = Some (Inr ([], []))) \<and>
         (Leafs m = pre @ a # post \<and> deref s a = Some n \<and> C n = Some c \<and> Equals c x = Inl e \<longrightarrow>
            GetMerklePath Equals m s x = Some (Inl (Raised e)) \<and>
            GetMerklePath Equals m s x \<noteq> Some (Inr ([], [])))"
proof -
  have 1: "scanLeafs Equals s (pre @ []) x = scanLeafs Equals s [] x"
    using assms by (rule scanLeafs_skip)
  have 2: "scanLeafs Equals s (pre @ a # post) x = scanLeafs Equals s (a # post) x"
    using assms by (rule scanLeafs_skip)
  show ?thesis using 1 2 by (auto simp: GetMerklePath_def)
qed

theorem GetMerklePath_not_found_witness:
  "GetMerklePath probeEquals
     \<lparr>Root = None, merkleRoot = [], Leafs = [0], hashStrategy = (\<lambda>b. Inr (stubMd5 b))\<rparr>
     [leafNode 1 [1], leafNode 13 [13]] 5 = Some (Inr ([], [])) \<and>
   GetMerklePath probeEquals
     \<lparr>Root = None, merkleRoot = [], Leafs = [0, 1], hashStrategy = (\<lambda>b. Inr (stubMd5 b))\<rparr>
     [leafNode 1 [1], leafNode 13 [13]] 5 = Some (Inl (Raised ''equality failed''))"
proof -
  let ?s = "[leafNode 1 [1], leafNode 13 [13]] :: nat store"
  have h: "\<forall>a\<in>set [0]. \<exists>n c. deref ?s a = Some n \<and> C n = Some c \<and> probeEquals c 5 = Inr False"
    by (simp add: deref_def leafNode_def probeEquals_def)
  have 1: "GetMerklePath probeEquals
     \<lparr>Root = None, merkleRoot = [], Leafs = [0], hashStrategy = (\<lambda>b. Inr (stubMd5 b))\<rparr>
     ?s 5 = Some (Inr ([], []))"
    using h GetMerklePath_not_found[where Equals = probeEquals and x = "5::nat" and pre = "[0]"
        and s = ?s
        and m = "\<lparr>Root = None, merkleRoot = [], Leafs = [0], hashStrategy = (\<lambda>b. Inr (stubMd5 b))\<rparr>"]
    by simp
  have 2: "GetMerklePath probeEquals
     \<lparr>Root = None, merkleRoot = [], Leafs = [0, 1], hashStrategy = (\<lambda>b. Inr (stubMd5 b))\<rparr>
     ?s 5 = Some (Inl (Raised ''equality failed''))"
    using h GetMerklePath_not_found[where Equals = probeEquals and x = "5::nat" and pre = "[0]"
        and s = ?s and a = 1 and post = "[]" and n = "leafNode 13 [13]" and c = 13
        and e = "''equality failed''"
        and m = "\<lparr>Root = None, merkleRoot = [], Leafs = [0, 1], hashStrategy = (\<lambda>b. Inr (stubMd5 b))\<rparr>"]
    by (simp add: deref_def leafNode_def probeEquals_def)
  show ?thesis using 1 2 by (rule conjI)
qed





text \<open>
  C4: for a content list of odd length whose digests all succeed, NewTree returns a tree
  with one leaf more than contents; the last two leaves have the same digest and the same
  content (the last content), the last leaf is flagged as duplicate and the one before it
  is not, both are leaves, and they are different node objects (all leaf addresses are
  distinct).
\<close>

theorem NewTree_odd_padding:
  fixes CH :: "'c \<Rightarrow> 'e + bytes"
  assumes ad: "allDigests CH cs" and odd: "length cs mod 2 = 1"
  shows "\<exists>t s. NewTree md5 CH cs s0 = Some (Inr (t, s)) \<and>
           length (Leafs t) = length cs + 1 \<and>
           Hash (s ! (Leafs t ! length cs)) = Hash (s ! (Leafs t ! (length cs - 1))) \<and>
           dup (s ! (Leafs t ! length cs)) \<and> \<not> dup (s ! (Leafs t ! (length cs - 1))) \<and>
           leaf (s ! (Leafs t ! length cs)) \<and> leaf (s ! (Leafs t ! (length cs - 1))) \<and>
           C (s ! (Leafs t ! length cs)) = Some (last cs) \<and>
           C (s ! (Leafs t ! (length cs - 1))) = Some (last cs) \<and>
           Leafs t ! length cs \<noteq> Leafs t ! (length cs - 1) \<and> distinct (Leafs t)"
proof -
  have ne: "cs \<noteq> []" using odd by auto
  obtain root s where nt: "NewTree md5 CH cs s0 =
       Some (Inr (\<lparr>Root = Some root, merkleRoot = Hash (s ! root),
                   Leafs = [length s0..<length s0 + length (paddedLeafs CH cs)],
                   hashStrategy = (\<lambda>b. Inr (md5 b))\<rparr>, s))"
    using NewTree_ok[OF ne ad, of md5 s0] by blast
  let ?t = "\<lparr>Root = Some root, merkleRoot = Hash (s ! root),
                   Leafs = [length s0..<length s0 + length (paddedLeafs CH cs)],
                   hashStrategy = (\<lambda>b. Inr (md5 b)) :: 'e strategy\<rparr>"
  let ?n = "length cs"
  have n1: "?n - 1 < ?n" using ne by simp
  have lst: "cs ! (?n - 1) = last cs" using ne by (simp add: last_conv_nth)
  note d = NewTree_dup_leaf[OF nt odd]
  note l = NewTree_leaf[OF nt n1]
  have "distinct (Leafs ?t)" by simp
  moreover have "Leafs ?t ! ?n \<noteq> Leafs ?t ! (?n - 1)" using d(2) l(1) n1 by simp
  ultimately show ?thesis
    using nt d l lst by (intro exI[of _ ?t] exI[of _ s]) simp
qed

theorem NewTree_odd_padding_witness:
  "allDigests probeHash [1, 2, 3] \<and> length [1, 2, 3 :: nat] mod 2 = 1 \<and>
   length (Leafs exampleTree3) = 4 \<and>
   Hash (exampleStore3 ! (Leafs exampleTree3 ! 3)) = Hash (exampleStore3 ! (Leafs exampleTree3 ! 2)) \<and>
   dup (exampleStore3 ! (Leafs exampleTree3 ! 3)) \<and>
   C (exampleStore3 ! (Leafs exampleTree3 ! 3)) = Some 3 \<and>
   Leafs exampleTree3 ! 3 \<noteq> Leafs exampleTree3 ! 2"
proof -
  have ad: "allDigests probeHash [1, 2, 3]" by (simp add: allDigests_def probeHash_def)
  have odd: "length [1, 2, 3 :: nat] mod 2 = 1" by simp
  have "length (Leafs exampleTree3) = 4 \<and>
   Hash (exampleStore3 ! (Leafs exampleTree3 ! 3)) = Hash (exampleStore3 ! (Leafs exampleTree3 ! 2)) \<and>
   dup (exampleStore3 ! (Leafs exampleTree3 ! 3)) \<and>
   C (exampleStore3 ! (Leafs exampleTree3 ! 3)) = Some 3 \<and>
   Leafs exampleTree3 ! 3 \<noteq> Leafs exampleTree3 ! 2"
    using NewTree_odd_padding[OF ad odd, of stubMd5 "[]"]
    unfolding NewTree_example3 by (simp add: numeral_3_eq_3 numeral_2_eq_2)
  then show ?thesis using ad odd by blast
qed





text \<open>
  C3, as amended: when buildIntermediate reduces a level of odd length (three nodes or
  more, the most recently allocated ones), the last node of the level is paired with
  itself: the Left and the Right pointer of its parent both hold the address of that one
  node, the parent's hash is the digest of the node's hash concatenated with itself, and no
  node that buildIntermediate allocates is flagged as duplicate.
\<close>

theorem odd_level_self_pairing:
  assumes len: "length s = b + m" and m3: "3 \<le> m" and odd: "m mod 2 = 1"
    and bi: "buildIntermediate hs [b..<b+m] s = Some (Inr (root, s'))"
  shows "\<exists>p. Parent (s' ! (b + m - 1)) = Some p \<and>
             Left (s' ! p) = Some (b + m - 1) \<and> Right (s' ! p) = Some (b + m - 1) \<and>
             hs (Hash (s' ! (b + m - 1)) @ Hash (s' ! (b + m - 1))) = Inr (Hash (s' ! p)) \<and>
             (\<forall>q. length s \<le> q \<and> q < length s' \<longrightarrow> \<not> dup (s' ! q))"
proof -
  have m2: "2 \<le> m" using m3 by simp
  have pl: "pairedLevel s s' b" using buildIntermediate_pairedLevel[OF len m2 bi] .
  have bf: "builtFrom hs s s' b root" using buildIntermediate_built[OF len m2 bi] .
  let ?j = "m - 1"
  let ?p = "length s + ?j div 2"
  have j: "b + ?j < length s" using len m3 by simp
  have e: "2 * (?j div 2) = ?j" using odd m3 by presburger
  have e2: "2 * (?j div 2) + 1 = length s - b" using e len m3 by simp
  have bj: "b + ?j = b + m - 1" using m3 by simp
  have par: "Parent (s' ! (b + ?j)) = Some ?p" and lft: "Left (s' ! ?p) = Some (b + 2 * (?j div 2))"
    and rgt: "Right (s' ! ?p) = Some (if 2 * (?j div 2) + 1 = length s - b then b + 2 * (?j div 2)
                else b + 2 * (?j div 2) + 1)"
    using pl j unfolding pairedLevel_def by blast+
  have l: "Left (s' ! ?p) = Some (b + m - 1)" using lft e bj by simp
  have r: "Right (s' ! ?p) = Some (b + m - 1)" using rgt e2 e bj by simp
  have rt: "root = length s' - 1" and ls: "length s < length s'"
    and int: "\<forall>p. length s \<le> p \<and> p \<le> root \<longrightarrow> internalNode hs s' b p"
    and hp: "\<forall>a. b \<le> a \<and> a < root \<longrightarrow>
        (\<exists>p. Parent (s' ! a) = Some p \<and> a < p \<and> p \<le> root \<and> length s \<le> p \<and> childOf s' p a)"
    using bf unfolding builtFrom_def by blast+
  have "b \<le> b + ?j \<and> b + ?j < root" using j rt ls by simp
  then have "\<exists>p. Parent (s' ! (b + ?j)) = Some p \<and> b + ?j < p \<and> p \<le> root \<and> length s \<le> p \<and>
      childOf s' p (b + ?j)"
    using hp by blast
  then obtain p' where "Parent (s' ! (b + ?j)) = Some p'" "p' \<le> root" by blast
  then have pr: "?p \<le> root" using par by simp
  have "internalNode hs s' b ?p" using int pr by simp
  then have h: "hs (Hash (s' ! (b + m - 1)) @ Hash (s' ! (b + m - 1))) = Inr (Hash (s' ! ?p))"
    unfolding internalNode_def using l r by auto
  have nd: "\<forall>q. length s \<le> q \<and> q < length s' \<longrightarrow> \<not> dup (s' ! q)"
  proof (intro allI impI)
    fix q assume "length s \<le> q \<and> q < length s'"
    then have "length s \<le> q \<and> q \<le> root" using rt by arith
    then have "internalNode hs s' b q" using int by blast
    then show "\<not> dup (s' ! q)" unfolding internalNode_def by blast
  qed
  show ?thesis using par l r h nd unfolding bj by blast
qed

theorem odd_level_self_pairing_witness:
  "length exampleLevel5 = 6 + 3 \<and> (3::nat) \<le> 3 \<and> (3::nat) mod 2 = 1 \<and>
   buildIntermediate (\<lambda>b. Inr (stubMd5 b)) [6..<6 + 3] exampleLevel5
     = Some (Inr (11, exampleStore5)) \<and>
   (\<exists>p. Parent (exampleStore5 ! 8) = Some p \<and>
        Left (exampleStore5 ! p) = Some 8 \<and> Right (exampleStore5 ! p) = Some 8 \<and>
        Inr (stubMd5 (Hash (exampleStore5 ! 8) @ Hash (exampleStore5 ! 8)))
          = (Inr (Hash (exampleStore5 ! p)) :: string + bytes))"
proof -
  have len: "length exampleLevel5 = 6 + 3" by (simp add: exampleLevel5_def)
  have m3: "(3::nat) \<le> 3" by simp
  have odd: "(3::nat) mod 2 = 1" by simp
  show ?thesis
    using odd_level_self_pairing[OF len m3 odd buildIntermediate_example5]
      len buildIntermediate_example5 by simp blast
qed

theorem odd_level_alias_counterexample:
  "NewTree stubMd5 probeHash [1, 2, 3, 4, 5] [] = Some (Inr (exampleTree5, exampleStore5)) \<and>
   map (\<lambda>n. Parent n) (take 3 (drop 6 exampleStore5)) = [Some 9, Some 9, Some 10] \<and>
   Left (exampleStore5 ! 10) = Some 8 \<and> Right (exampleStore5 ! 10) = Some 8 \<and>
   length exampleStore5 = 12 \<and>
   filter dup exampleStore5 = [exampleStore5 ! 5] \<and> leaf (exampleStore5 ! 5)"
  using NewTree_example5 by (simp add: exampleStore5_def)

end
